theory Spec2Isabelle
  imports Main "HOL-Library.Word"
begin

section \<open>Data model of fifo_queue_server.go\<close>

text \<open>
  A Go \<open>[]byte\<close> is either \<open>nil\<close> or a (possibly empty) sequence of bytes. The two
  length-0 values are kept apart because \<open>encoding/json\<close> writes them differently
  (\<open>null\<close> and an empty string). A byte is a \<open>char\<close> (8 bits).
\<close>

type_synonym byte = char

datatype bslice = NilSlice | Slice "byte list"

fun contents :: "bslice \<Rightarrow> byte list" where
  "contents NilSlice = []"
| "contents (Slice bs) = bs"

definition slice_len :: "bslice \<Rightarrow> nat" where
  "slice_len b = length (contents b)"

text \<open>\<open>const maxBody = 128 * 1024\<close>\<close>

definition maxBody :: nat where
  "maxBody = 128 * 1024"

text \<open>
  The package-level variables: the two caps (\<open>maxBytes int64\<close>, \<open>maxMsgs int\<close>) and the
  three \<open>uint64\<close> counters. \<open>maxMsgs\<close> is only ever compared with \<open>len(q.data)\<close>, so it
  is an \<open>int\<close>; \<open>maxBytes\<close> and the counters take part in 64-bit arithmetic and are
  words (\<open>sint\<close> reads the signed ones).
\<close>

record globals =
  maxBytes :: "64 word"
  maxMsgs :: int
  enqueueCnt :: "64 word"
  dequeueCnt :: "64 word"
  dequeueMiss :: "64 word"

text \<open>\<open>type queue struct { mu sync.Mutex; data [][]byte; bytes int64 }\<close>, one caller at a time.\<close>

record queue =
  data :: "bslice list"
  bytes :: "64 word"

datatype error = PayloadTooLarge | QueueFull | IOError | DecodeError

section \<open>The FIFO queue\<close>

text \<open>\<open>append([]byte(nil), b...)\<close>: appending nothing to \<open>nil\<close> leaves \<open>nil\<close>.\<close>

definition append_copy :: "bslice \<Rightarrow> bslice" where
  "append_copy b = (if slice_len b = 0 then NilSlice else Slice (contents b))"

definition enqueue :: "bslice \<Rightarrow> globals \<Rightarrow> queue \<Rightarrow> error option \<times> globals \<times> queue" where
  "enqueue b g q =
     (if slice_len b > maxBody then (Some PayloadTooLarge, g, q)
      else if int (length (data q)) \<ge> maxMsgs g
              \<or> sint (bytes q + of_nat (slice_len b)) > sint (maxBytes g)
        then (Some QueueFull, g, q)
      else
        (let cp = append_copy b in
          (None,
           g\<lparr>enqueueCnt := enqueueCnt g + 1\<rparr>,
           q\<lparr>data := data q @ [cp], bytes := bytes q + of_nat (slice_len cp)\<rparr>)))"

definition dequeue :: "globals \<Rightarrow> queue \<Rightarrow> (bslice \<times> bool) \<times> globals \<times> queue" where
  "dequeue g q =
     (case data q of
        [] \<Rightarrow> ((NilSlice, False), g\<lparr>dequeueMiss := dequeueMiss g + 1\<rparr>, q)
      | m # rest \<Rightarrow>
          ((m, True),
           g\<lparr>dequeueCnt := dequeueCnt g + 1\<rparr>,
           q\<lparr>data := rest, bytes := bytes q - of_nat (slice_len m)\<rparr>))"

definition clear :: "globals \<Rightarrow> queue \<Rightarrow> globals \<times> queue" where
  "clear g q = (g, q\<lparr>data := [], bytes := 0\<rparr>)"

definition length_q :: "queue \<Rightarrow> int" where
  "length_q q = int (length (data q))"

definition size_q :: "queue \<Rightarrow> 64 word" where
  "size_q q = bytes q"

text \<open>\<open>q := &queue{}\<close>\<close>

definition new_queue :: queue where
  "new_queue = \<lparr>data = [], bytes = 0\<rparr>"

text \<open>The defaults of the package-level variables.\<close>

definition default_globals :: globals where
  "default_globals =
     \<lparr>maxBytes = 268435456, maxMsgs = 50000, enqueueCnt = 0, dequeueCnt = 0, dequeueMiss = 0\<rparr>"

section \<open>The snapshot codec\<close>

text \<open>
  \<open>persist\<close> writes the items with \<open>json.NewEncoder(f).Encode(snap)\<close> and \<open>load\<close> reads
  them with \<open>json.NewDecoder(f).Decode(&d)\<close>. The standard library's documented
  behaviour on \<open>[][]byte\<close> is modelled here: a slice is a JSON array, a \<open>[]byte\<close> is a
  string holding its base64 form (standard alphabet, padded), a \<open>nil\<close> \<open>[]byte\<close> is
  \<open>null\<close>, and \<open>Encode\<close> ends the value with a newline.
\<close>

subsection \<open>base64, standard encoding\<close>

text \<open>
  \<open>base64.StdEncoding\<close>: three bytes make the 24-bit value
  \<open>val = b0<<16 | b1<<8 | b2\<close>, written as the four characters
  \<open>encode[val>>18&0x3F]\<close>, \<open>encode[val>>12&0x3F]\<close>, \<open>encode[val>>6&0x3F]\<close>,
  \<open>encode[val&0x3F]\<close>; one or two bytes left over are written as two or three
  characters and padded with \<open>=\<close> to four. The shifts and masks are \<open>div\<close> and \<open>mod\<close> by
  powers of two here. Decoding maps each character back through the alphabet (a
  character outside it is an error), wants whole groups of four, and allows padding
  in the last group only.
\<close>

definition b64_alphabet :: string where
  "b64_alphabet = ''ABCDEFGHIJKLMNOPQRSTUVWXYZabcdefghijklmnopqrstuvwxyz0123456789+/''"

definition b64_char :: "nat \<Rightarrow> char" where
  "b64_char n = b64_alphabet ! n"

fun find_pos :: "'a \<Rightarrow> 'a list \<Rightarrow> nat option" where
  "find_pos c [] = None"
| "find_pos c (x # xs) = (if c = x then Some 0 else map_option Suc (find_pos c xs))"

definition b64_index :: "char \<Rightarrow> nat option" where
  "b64_index c = find_pos c b64_alphabet"

fun b64_encode :: "byte list \<Rightarrow> string" where
  "b64_encode (a # b # c # rest) =
     (let val = of_char a * 65536 + of_char b * 256 + of_char c in
        b64_char (val div 262144 mod 64) # b64_char (val div 4096 mod 64)
        # b64_char (val div 64 mod 64) # b64_char (val mod 64) # b64_encode rest)"
| "b64_encode [a, b] =
     (let val = of_char a * 65536 + of_char b * 256 in
        [b64_char (val div 262144 mod 64), b64_char (val div 4096 mod 64),
         b64_char (val div 64 mod 64), CHR ''=''])"
| "b64_encode [a] =
     (let val = of_char a * 65536 in
        [b64_char (val div 262144 mod 64), b64_char (val div 4096 mod 64), CHR ''='', CHR ''=''])"
| "b64_encode [] = []"

fun b64_decode :: "string \<Rightarrow> byte list option" where
  "b64_decode [] = Some []"
| "b64_decode [c0, c1, c2, c3] =
     (case (b64_index c0, b64_index c1) of
        (Some n0, Some n1) \<Rightarrow>
          if c2 = CHR ''='' then
            (if c3 = CHR ''='' then
               (let val = n0 * 262144 + n1 * 4096 in Some [char_of (val div 65536)])
             else None)
          else
            (case b64_index c2 of
               None \<Rightarrow> None
             | Some n2 \<Rightarrow>
                 if c3 = CHR ''='' then
                   (let val = n0 * 262144 + n1 * 4096 + n2 * 64 in
                      Some [char_of (val div 65536), char_of (val div 256)])
                 else
                   (case b64_index c3 of
                      None \<Rightarrow> None
                    | Some n3 \<Rightarrow>
                        (let val = n0 * 262144 + n1 * 4096 + n2 * 64 + n3 in
                           Some [char_of (val div 65536), char_of (val div 256), char_of val])))
      | _ \<Rightarrow> None)"
| "b64_decode (c0 # c1 # c2 # c3 # rest) =
     (case (b64_index c0, b64_index c1, b64_index c2, b64_index c3) of
        (Some n0, Some n1, Some n2, Some n3) \<Rightarrow>
          (let val = n0 * 262144 + n1 * 4096 + n2 * 64 + n3 in
             map_option (\<lambda>bs. char_of (val div 65536) # char_of (val div 256) # char_of val # bs)
               (b64_decode rest))
      | _ \<Rightarrow> None)"
| "b64_decode _ = None"


subsection \<open>The JSON array of strings\<close>

text \<open>
  The encoder writes \<open>[\<close>, the elements separated by commas, \<open>]\<close> and a newline; an
  element is \<open>null\<close> for a \<open>nil\<close> slice and the quoted base64 text otherwise.
\<close>

definition dquote :: char where
  "dquote = CHR 0x22"

definition backslash :: char where
  "backslash = CHR 0x5C"

definition newline :: char where
  "newline = CHR 0x0A"

definition encode_elem :: "bslice \<Rightarrow> string" where
  "encode_elem b = (case b of NilSlice \<Rightarrow> ''null'' | Slice bs \<Rightarrow> dquote # b64_encode bs @ [dquote])"

fun encode_rest :: "bslice list \<Rightarrow> string" where
  "encode_rest [] = []"
| "encode_rest (y # ys) = CHR '','' # encode_elem y @ encode_rest ys"

fun encode_elems :: "bslice list \<Rightarrow> string" where
  "encode_elems [] = []"
| "encode_elems (x # xs) = encode_elem x @ encode_rest xs"

definition json_encode :: "bslice list \<Rightarrow> string" where
  "json_encode snap = CHR ''['' # encode_elems snap @ [CHR '']'', newline]"

definition is_space :: "char \<Rightarrow> bool" where
  "is_space c = (c = CHR '' '' \<or> c = CHR 0x09 \<or> c = CHR 0x0D \<or> c = CHR 0x0A)"

fun skip_ws :: "string \<Rightarrow> string" where
  "skip_ws [] = []"
| "skip_ws (c # cs) = (if is_space c then skip_ws cs else c # cs)"

text \<open>
  Decoding. \<open>Decoder.Decode\<close> reads the first JSON value of the input and does not look
  at what follows it. Into a \<open>[][]byte\<close> it stores: a top-level \<open>null\<close> as the \<open>nil\<close>
  slice; an array, element by element, where \<open>null\<close> is a \<open>nil\<close> \<open>[]byte\<close>, a string is
  unquoted and then base64-decoded (the base64 decoder skips carriage returns and
  line feeds), and an array gives its elements as bytes (an integer from 0 to 255,
  or \<open>null\<close>, which leaves the byte 0). Every other value, and every syntax error in the
  first value, is an error.
\<close>

text \<open>The escapes of a JSON string: one character after the backslash, or \<open>u\<close> and four hex digits.\<close>

definition simple_escape :: "char \<Rightarrow> char option" where
  "simple_escape e =
     (if e = dquote then Some dquote
      else if e = backslash then Some backslash
      else if e = CHR ''/'' then Some (CHR ''/'')
      else if e = CHR ''b'' then Some (CHR 0x08)
      else if e = CHR ''f'' then Some (CHR 0x0C)
      else if e = CHR ''n'' then Some (CHR 0x0A)
      else if e = CHR ''r'' then Some (CHR 0x0D)
      else if e = CHR ''t'' then Some (CHR 0x09)
      else None)"

definition hex_val :: "char \<Rightarrow> nat option" where
  "hex_val c =
     (case find_pos c ''0123456789abcdef'' of
        Some n \<Rightarrow> Some n
      | None \<Rightarrow> map_option (\<lambda>n. n + 10) (find_pos c ''ABCDEF''))"

text \<open>
  A code point below 128 is one byte. A larger one (a surrogate too) is unquoted to
  UTF-8 bytes of 128 or more, which the base64 decoder refuses: the string is in error
  then, and so it is here at once.
\<close>

definition unicode_escape :: "string \<Rightarrow> char option" where
  "unicode_escape hs =
     (case map hex_val hs of
        [Some a, Some b, Some c, Some d] \<Rightarrow>
          (let v = ((a * 16 + b) * 16 + c) * 16 + d in
             if v < 128 then Some (char_of v) else None)
      | _ \<Rightarrow> None)"

text \<open>After the opening quote: the unquoted string and what follows the closing quote.\<close>

fun span_str :: "string \<Rightarrow> (string \<times> string) option" where
  "span_str [] = None"
| "span_str (c # cs) =
     (if c = dquote then Some ([], cs)
      else if of_char c < (32::nat) then None
      else if c = backslash then
        (case cs of
           [] \<Rightarrow> None
         | e # es \<Rightarrow>
             if e = CHR ''u'' then
               (case unicode_escape (take 4 es) of
                  None \<Rightarrow> None
                | Some x \<Rightarrow>
                    (case span_str (drop 4 es) of
                       None \<Rightarrow> None
                     | Some (body, rest) \<Rightarrow> Some (x # body, rest)))
             else
               (case simple_escape e of
                  None \<Rightarrow> None
                | Some x \<Rightarrow>
                    (case span_str es of
                       None \<Rightarrow> None
                     | Some (body, rest) \<Rightarrow> Some (x # body, rest))))
      else (case span_str cs of None \<Rightarrow> None | Some (body, rest) \<Rightarrow> Some (c # body, rest)))"

text \<open>The base64 text of a string element, without the line breaks the decoder skips.\<close>

definition drop_newlines :: "string \<Rightarrow> string" where
  "drop_newlines s = filter (\<lambda>c. c \<noteq> CHR 0x0A \<and> c \<noteq> CHR 0x0D) s"

text \<open>
  One byte of an array element: \<open>null\<close>, or the digits of an integer with no leading
  zero and a value of at most 255. What follows is checked by the caller, so a sign, a
  fraction or an exponent is an error.
\<close>

definition is_digit :: "char \<Rightarrow> bool" where
  "is_digit c = (48 \<le> (of_char c :: nat) \<and> (of_char c :: nat) \<le> 57)"

definition dec_val :: "string \<Rightarrow> nat" where
  "dec_val ds = foldl (\<lambda>n c. 10 * n + (of_char c - 48)) 0 ds"

definition parse_byte :: "string \<Rightarrow> (byte \<times> string) option" where
  "parse_byte s =
     (if take 4 s = ''null'' then Some (char_of (0::nat), drop 4 s)
      else
        (let ds = takeWhile is_digit s;
             rest = dropWhile is_digit s in
           if ds = [] then None
           else if hd ds = CHR ''0'' \<and> tl ds \<noteq> [] then None
           else if dec_val ds > 255 then None
           else Some (char_of (dec_val ds), rest)))"

lemma length_skip_ws: "length (skip_ws s) \<le> length s"
  by (induction s) auto

lemma parse_byte_shorter: "parse_byte s = Some (b, rest) \<Longrightarrow> length rest < length s"
proof -
  assume a: "parse_byte s = Some (b, rest)"
  show ?thesis
  proof (cases "take 4 s = ''null''")
    case True
    then have "length (take 4 s) = 4" by simp
    then have "4 \<le> length s" by simp
    moreover have "rest = drop 4 s" using a True by (simp add: parse_byte_def)
    ultimately show ?thesis by simp
  next
    case False
    then have r: "rest = dropWhile is_digit s" "takeWhile is_digit s \<noteq> []"
      using a by (auto simp add: parse_byte_def Let_def split: if_splits)
    have "length (takeWhile is_digit s) + length (dropWhile is_digit s) = length s"
      by (metis length_append takeWhile_dropWhile_id)
    then show ?thesis using r by (cases "takeWhile is_digit s") auto
  qed
qed

text \<open>After a byte of an array element: a comma and the next byte, or the closing bracket.\<close>

function parse_bytes_tail :: "string \<Rightarrow> (byte list \<times> string) option" where
  "parse_bytes_tail s =
     (case skip_ws s of
        [] \<Rightarrow> None
      | c # cs \<Rightarrow>
          if c = CHR '']'' then Some ([], cs)
          else if c = CHR '','' then
            (case parse_byte (skip_ws cs) of
               None \<Rightarrow> None
             | Some (b, rest) \<Rightarrow>
                 (case parse_bytes_tail rest of
                    None \<Rightarrow> None
                  | Some (bs, r) \<Rightarrow> Some (b # bs, r)))
          else None)"
  by pat_completeness auto
termination
proof (relation "measure length")
  show "wf (measure length)" by simp
next
  fix s :: string and c cs xr b rest
  assume a: "skip_ws s = c # cs" "parse_byte (skip_ws cs) = Some xr" "(b, rest) = xr"
  have "length rest < length (skip_ws cs)" using a parse_byte_shorter by metis
  also have "\<dots> \<le> length cs" by (rule length_skip_ws)
  also have "\<dots> < length (skip_ws s)" using a by simp
  also have "\<dots> \<le> length s" by (rule length_skip_ws)
  finally show "(rest, s) \<in> measure length" by simp
qed

declare parse_bytes_tail.simps [simp del]

text \<open>After the opening bracket of an array element.\<close>

definition parse_bytes :: "string \<Rightarrow> (byte list \<times> string) option" where
  "parse_bytes s =
     (let u = skip_ws s in
        case u of
          [] \<Rightarrow> None
        | c # cs \<Rightarrow>
            if c = CHR '']'' then Some ([], cs)
            else
              (case parse_byte u of
                 None \<Rightarrow> None
               | Some (b, rest) \<Rightarrow>
                   (case parse_bytes_tail rest of
                      None \<Rightarrow> None
                    | Some (bs, r) \<Rightarrow> Some (b # bs, r))))"

text \<open>One element of the top-level array, and what follows it.\<close>

definition parse_elem :: "string \<Rightarrow> (bslice \<times> string) option" where
  "parse_elem s =
     (case s of
        [] \<Rightarrow> None
      | c # cs \<Rightarrow>
          if c = dquote then
            (case span_str cs of
               None \<Rightarrow> None
             | Some (body, rest) \<Rightarrow>
                 (case b64_decode (drop_newlines body) of
                    None \<Rightarrow> None
                  | Some bs \<Rightarrow> Some (Slice bs, rest)))
          else if c = CHR ''['' then
            (case parse_bytes cs of
               None \<Rightarrow> None
             | Some (bs, rest) \<Rightarrow> Some (Slice bs, rest))
          else if take 4 s = ''null'' then Some (NilSlice, drop 4 s)
          else None)"

lemma span_str_shorter: "span_str s = Some (body, rest) \<Longrightarrow> length rest < length s"
proof (induction s arbitrary: body rest rule: span_str.induct)
  case 1
  then show ?case by simp
next
  case (2 c cs)
  show ?case
    using "2.prems" "2.IH"
    by (auto split: if_splits option.splits list.splits) force+
qed

lemma parse_bytes_tail_shorter: "parse_bytes_tail s = Some (bs, r) \<Longrightarrow> length r < length s"
proof (induction s arbitrary: bs r rule: parse_bytes_tail.induct)
  case (1 s)
  show ?case
  proof (cases "skip_ws s")
    case Nil
    then show ?thesis using "1.prems" by (simp add: parse_bytes_tail.simps)
  next
    case (Cons c cs)
    have l: "length cs < length s" using length_skip_ws [of s] Cons by simp
    show ?thesis
    proof (cases "c = CHR '']''")
      case True
      then show ?thesis using "1.prems" Cons l by (simp add: parse_bytes_tail.simps)
    next
      case False
      then obtain b rest bs' where
        p: "c = CHR '',''" "parse_byte (skip_ws cs) = Some (b, rest)"
           "parse_bytes_tail rest = Some (bs', r)"
        using "1.prems" Cons
        by (auto simp add: parse_bytes_tail.simps split: if_splits option.splits)
      have "length r < length rest" using "1.IH" [OF Cons False p(1) p(2) refl p(3)] .
      also have "\<dots> < length (skip_ws cs)" using p(2) by (rule parse_byte_shorter)
      also have "\<dots> \<le> length cs" by (rule length_skip_ws)
      finally show ?thesis using l by simp
    qed
  qed
qed

lemma parse_bytes_shorter: "parse_bytes s = Some (bs, r) \<Longrightarrow> length r \<le> length s"
proof -
  assume a: "parse_bytes s = Some (bs, r)"
  show ?thesis
  proof (cases "skip_ws s")
    case Nil
    then show ?thesis using a by (simp add: parse_bytes_def)
  next
    case (Cons c cs)
    have l: "length (c # cs) \<le> length s" using length_skip_ws [of s] Cons by simp
    show ?thesis
    proof (cases "c = CHR '']''")
      case True
      then show ?thesis using a Cons l by (simp add: parse_bytes_def)
    next
      case False
      then obtain b rest bs' where
        p: "parse_byte (c # cs) = Some (b, rest)" "parse_bytes_tail rest = Some (bs', r)"
        using a Cons by (auto simp add: parse_bytes_def split: option.splits)
      have "length r < length rest" using p(2) by (rule parse_bytes_tail_shorter)
      also have "\<dots> < length (c # cs)" using p(1) by (rule parse_byte_shorter)
      finally show ?thesis using l by simp
    qed
  qed
qed

lemma parse_elem_shorter: "parse_elem s = Some (x, rest) \<Longrightarrow> length rest < length s"
  by (auto simp add: parse_elem_def split: list.splits if_splits option.splits
      dest: span_str_shorter parse_bytes_shorter)

text \<open>After an element of the top-level array: a comma and the next element, or the end.\<close>

function parse_tail :: "string \<Rightarrow> bslice list option" where
  "parse_tail s =
     (case skip_ws s of
        [] \<Rightarrow> None
      | c # cs \<Rightarrow>
          if c = CHR '']'' then Some []
          else if c = CHR '','' then
            (case parse_elem (skip_ws cs) of
               None \<Rightarrow> None
             | Some (x, rest) \<Rightarrow> map_option (Cons x) (parse_tail rest))
          else None)"
  by pat_completeness auto
termination
proof (relation "measure length")
  show "wf (measure length)" by simp
next
  fix s :: string and c cs xr x rest
  assume a: "skip_ws s = c # cs" "parse_elem (skip_ws cs) = Some xr" "(x, rest) = xr"
  have "length rest < length (skip_ws cs)" using a parse_elem_shorter by metis
  also have "\<dots> \<le> length cs" by (rule length_skip_ws)
  also have "\<dots> < length (skip_ws s)" using a by simp
  also have "\<dots> \<le> length s" by (rule length_skip_ws)
  finally show "(rest, s) \<in> measure length" by simp
qed

declare parse_tail.simps [simp del]

definition json_decode :: "string \<Rightarrow> bslice list option" where
  "json_decode s =
     (let t = skip_ws s in
        if take 4 t = ''null'' then Some []
        else
          (case t of
             [] \<Rightarrow> None
           | c # cs \<Rightarrow>
               if c = CHR ''['' then
                 (let u = skip_ws cs in
                    case u of
                      [] \<Rightarrow> None
                    | d # ds \<Rightarrow>
                        if d = CHR '']'' then Some []
                        else
                          (case parse_elem u of
                             None \<Rightarrow> None
                           | Some (x, rest) \<Rightarrow> map_option (Cons x) (parse_tail rest)))
               else None))"

text \<open>The characters a JSON string can hold as they are.\<close>

definition str_safe :: "char \<Rightarrow> bool" where
  "str_safe c = (c \<noteq> dquote \<and> c \<noteq> backslash \<and> \<not> of_char c < (32::nat))"

section \<open>Files, persist and load\<close>

text \<open>
  The file system is a map from paths to contents. The calls of package \<open>os\<close> can fail;
  which call of an operation fails is a parameter of the operation (\<open>NoFault\<close>: none).
  A fault of a call the operation does not make is ignored.
\<close>

type_synonym fs = "string \<Rightarrow> string option"

datatype fault = NoFault | FailCreate | FailWrite nat | FailClose | FailRename | FailOpen | FailRead

text \<open>\<open>os.Create\<close>: the file exists and is empty afterwards.\<close>

definition os_create :: "string \<Rightarrow> fs \<Rightarrow> fs" where
  "os_create path fs = fs(path \<mapsto> [])"

text \<open>
  Writing \<open>content\<close> to a fresh file: the states the file system goes through while the
  first \<open>k\<close> bytes land (all of them when \<open>k\<close> is the length or more).
\<close>

definition write_states :: "string \<Rightarrow> string \<Rightarrow> nat \<Rightarrow> fs \<Rightarrow> fs list" where
  "write_states path content k fs =
     map (\<lambda>i. fs(path \<mapsto> take i content)) [0 ..< Suc (min k (length content))]"

text \<open>
  \<open>os.Rename\<close>: one atomic step that replaces \<open>new\<close> by \<open>old\<close>. (\<open>persist\<close> renames a
  file it has just written, so \<open>old\<close> exists when it is called.)
\<close>

definition os_rename :: "string \<Rightarrow> string \<Rightarrow> fs \<Rightarrow> fs" where
  "os_rename old new fs =
     (case fs old of
        None \<Rightarrow> fs
      | Some c \<Rightarrow> if old = new then fs else (fs(new \<mapsto> c))(old := None))"

text \<open>
  \<open>persist\<close>, with every state of the file system from the call to the return: the
  state before, the temporary file created, the encoded snapshot landing in it, and the
  rename. A write that fails after \<open>k\<close> bytes leaves the temporary file with them.
\<close>

definition persist_states :: "string \<Rightarrow> fault \<Rightarrow> queue \<Rightarrow> fs \<Rightarrow> error option \<times> fs list" where
  "persist_states p flt q fs =
     (let snap = data q;
          tmp = p @ ''.tmp'' in
        if flt = FailCreate then (Some IOError, [fs])
        else
          (let fs1 = os_create tmp fs;
               out = json_encode snap;
               ws = write_states tmp out (length out) fs1 in
             case flt of
               FailWrite k \<Rightarrow> (Some IOError, fs # fs1 # write_states tmp out k fs1)
             | FailClose \<Rightarrow> (Some IOError, fs # fs1 # ws)
             | FailRename \<Rightarrow> (Some IOError, fs # fs1 # ws)
             | _ \<Rightarrow> (None, fs # fs1 # ws @ [os_rename tmp p (last ws)])))"

definition persist :: "string \<Rightarrow> fault \<Rightarrow> queue \<Rightarrow> fs \<Rightarrow> error option \<times> fs" where
  "persist p flt q fs = (case persist_states p flt q fs of (e, tr) \<Rightarrow> (e, last tr))"

text \<open>
  \<open>load\<close>, for any decoder \<open>dec\<close> in the place of \<open>json.NewDecoder(f).Decode\<close>:
  \<open>None\<close> is the decoder's error.
\<close>

definition load_with ::
  "(string \<Rightarrow> bslice list option) \<Rightarrow> string \<Rightarrow> fault \<Rightarrow> queue \<Rightarrow> fs \<Rightarrow> error option \<times> queue" where
  "load_with dec p flt q fs =
     (if flt = FailOpen then (Some IOError, q)
      else
        (case fs p of
           None \<Rightarrow> (Some IOError, q)
         | Some c \<Rightarrow>
             if flt = FailRead then (Some IOError, q)
             else
               (case dec c of
                  None \<Rightarrow> (Some DecodeError, q)
                | Some d \<Rightarrow>
                    if flt = FailClose then (Some IOError, q)
                    else
                      (let total = foldl (\<lambda>t b. t + of_nat (slice_len b)) 0 d in
                         (None, q\<lparr>data := d, bytes := total\<rparr>)))))"

definition load :: "string \<Rightarrow> fault \<Rightarrow> queue \<Rightarrow> fs \<Rightarrow> error option \<times> queue" where
  "load = load_with json_decode"

text \<open>
  The calls one \<open>persist\<close> makes on the file system when none of them fails, in order.
  \<open>persist\<close> holds the queue's lock only while it copies the items, so the calls of two
  \<open>persist\<close> calls that overlap interleave; both use the temporary file \<open>p.tmp\<close> when
  they have the same destination \<open>p\<close>.
\<close>

datatype os_call = OsCreate string | OsWrite string string | OsClose string | OsRename string string

fun do_call :: "os_call \<Rightarrow> fs \<Rightarrow> fs" where
  "do_call (OsCreate path) fs = os_create path fs"
| "do_call (OsWrite path content) fs = last (write_states path content (length content) fs)"
| "do_call (OsClose path) fs = fs"
| "do_call (OsRename old new) fs = os_rename old new fs"

fun do_calls :: "os_call list \<Rightarrow> fs \<Rightarrow> fs" where
  "do_calls [] fs = fs"
| "do_calls (c # cs) fs = do_calls cs (do_call c fs)"

definition persist_calls :: "string \<Rightarrow> queue \<Rightarrow> os_call list" where
  "persist_calls p q =
     (let snap = data q;
          tmp = p @ ''.tmp'' in
        [OsCreate tmp, OsWrite tmp (json_encode snap), OsClose tmp, OsRename tmp p])"

section \<open>Sequences of operations\<close>

text \<open>One queue, its package-level variables and the file system, and the calls made on them.\<close>

datatype op = Enqueue bslice | Dequeue | Clear | Persist string fault | Load string fault

type_synonym world = "globals \<times> queue \<times> fs"

fun step :: "op \<Rightarrow> world \<Rightarrow> world" where
  "step (Enqueue b) (g, q, fs) = (case enqueue b g q of (e, g', q') \<Rightarrow> (g', q', fs))"
| "step Dequeue (g, q, fs) = (case dequeue g q of (r, g', q') \<Rightarrow> (g', q', fs))"
| "step Clear (g, q, fs) = (case clear g q of (g', q') \<Rightarrow> (g', q', fs))"
| "step (Persist p flt) (g, q, fs) = (g, q, snd (persist p flt q fs))"
| "step (Load p flt) (g, q, fs) = (g, snd (load p flt q fs), fs)"

fun run :: "op list \<Rightarrow> world \<Rightarrow> world" where
  "run [] w = w"
| "run (x # xs) w = run xs (step x w)"

text \<open>Enqueue each item of a list in turn, then dequeue \<open>n\<close> times, keeping the results.\<close>

fun enqueue_all ::
  "bslice list \<Rightarrow> globals \<Rightarrow> queue \<Rightarrow> error option list \<times> globals \<times> queue" where
  "enqueue_all [] g q = ([], g, q)"
| "enqueue_all (b # bs) g q =
     (case enqueue b g q of
        (r, g', q') \<Rightarrow> (case enqueue_all bs g' q' of (rs, g'', q'') \<Rightarrow> (r # rs, g'', q'')))"

fun dequeue_n :: "nat \<Rightarrow> globals \<Rightarrow> queue \<Rightarrow> (bslice \<times> bool) list \<times> globals \<times> queue" where
  "dequeue_n 0 g q = ([], g, q)"
| "dequeue_n (Suc n) g q =
     (case dequeue g q of
        (r, g', q') \<Rightarrow> (case dequeue_n n g' q' of (rs, g'', q'') \<Rightarrow> (r # rs, g'', q'')))"

text \<open>The sum of the lengths of the items held.\<close>

definition held_bytes :: "queue \<Rightarrow> nat" where
  "held_bytes q = sum_list (map slice_len (data q))"

text \<open>The stored byte total agrees with the items held, as an \<open>int64\<close>.\<close>

definition accounted :: "queue \<Rightarrow> bool" where
  "accounted q = (bytes q = of_nat (held_bytes q))"

text \<open>
  The two caps as the spec states them, on the count \<open>length()\<close> and the total \<open>size()\<close>
  report; caps that are not negative and leave room for one more item below \<open>2^63\<close>; and
  the caps together with an exact byte total.
\<close>

definition within_caps :: "globals \<Rightarrow> queue \<Rightarrow> bool" where
  "within_caps g q = (length_q q \<le> maxMsgs g \<and> sint (size_q q) \<le> sint (maxBytes g))"

definition sane_caps :: "globals \<Rightarrow> bool" where
  "sane_caps g = (0 \<le> maxMsgs g \<and> 0 \<le> sint (maxBytes g) \<and> sint (maxBytes g) + int maxBody < 2 ^ 63)"

definition caps_inv :: "globals \<Rightarrow> queue \<Rightarrow> bool" where
  "caps_inv g q = (within_caps g q \<and> sint (bytes q) = int (held_bytes q))"

fun is_load :: "op \<Rightarrow> bool" where
  "is_load (Load p flt) = True"
| "is_load _ = False"

section \<open>The codec round trip\<close>

lemma find_pos_nth: "distinct xs \<Longrightarrow> n < length xs \<Longrightarrow> find_pos (xs ! n) xs = Some n"
proof (induction xs arbitrary: n)
  case Nil
  then show ?case by simp
next
  case (Cons x xs)
  then show ?case by (cases n) auto
qed

lemma find_pos_mem: "find_pos c xs = Some n \<Longrightarrow> c \<in> set xs"
  by (induction xs arbitrary: n) (auto split: if_splits)

lemma distinct_alphabet: "distinct b64_alphabet"
  by (simp add: b64_alphabet_def)

lemma length_alphabet: "length b64_alphabet = 64"
  by (simp add: b64_alphabet_def)

lemma b64_index_char: "n < 64 \<Longrightarrow> b64_index (b64_char n) = Some n"
  by (simp add: b64_index_def b64_char_def find_pos_nth distinct_alphabet length_alphabet)

lemma b64_char_mem: "n < 64 \<Longrightarrow> b64_char n \<in> set b64_alphabet"
  by (simp add: b64_char_def length_alphabet)

lemma pad_not_in_alphabet: "CHR ''='' \<notin> set b64_alphabet"
  by (simp add: b64_alphabet_def)

lemma b64_char_not_pad: "n < 64 \<Longrightarrow> b64_char n \<noteq> CHR ''=''"
  using b64_char_mem pad_not_in_alphabet by metis

lemma b64_decode_quantum:
  assumes "b64_index c0 = Some n0" "b64_index c1 = Some n1"
    "b64_index c2 = Some n2" "b64_index c3 = Some n3"
  shows "b64_decode (c0 # c1 # c2 # c3 # rest) =
     map_option (\<lambda>bs. char_of ((n0 * 262144 + n1 * 4096 + n2 * 64 + n3) div 65536)
                    # char_of ((n0 * 262144 + n1 * 4096 + n2 * 64 + n3) div 256)
                    # char_of (n0 * 262144 + n1 * 4096 + n2 * 64 + n3) # bs)
       (b64_decode rest)"
proof -
  have p: "c2 \<noteq> CHR ''=''" "c3 \<noteq> CHR ''=''"
    using assms find_pos_mem pad_not_in_alphabet unfolding b64_index_def by metis+
  show ?thesis
    using assms p by (cases rest) (simp_all add: Let_def)
qed

lemma sextets_val:
  fixes v :: nat
  assumes "v < 16777216"
  shows "(v div 262144 mod 64) * 262144 + (v div 4096 mod 64) * 4096
          + (v div 64 mod 64) * 64 + v mod 64 = v"
proof -
  define x where "x = v div 64"
  define y where "y = x div 64"
  define z where "z = y div 64"
  have y: "v div 4096 = y" unfolding y_def x_def by (simp add: div_mult2_eq [symmetric])
  have z: "v div 262144 = z" unfolding z_def y_def x_def by (simp add: div_mult2_eq [symmetric])
  have zl: "z < 64" using assms unfolding z [symmetric] by simp
  have 1: "v = 64 * x + v mod 64" unfolding x_def by simp
  have 2: "x = 64 * y + x mod 64" unfolding y_def by simp
  have 3: "y = 64 * z + y mod 64" unfolding z_def by simp
  have "z * 262144 + (y mod 64) * 4096 + (x mod 64) * 64 + v mod 64 = v"
    using 1 2 3 by linarith
  then show ?thesis using zl by (simp add: y z x_def [symmetric])
qed

lemma bytes3:
  fixes a b c :: nat
  assumes "a < 256" "b < 256" "c < 256"
  shows "(a * 65536 + b * 256 + c) div 65536 = a"
    and "(a * 65536 + b * 256 + c) div 256 mod 256 = b"
    and "(a * 65536 + b * 256 + c) mod 256 = c"
    and "a * 65536 + b * 256 + c < 16777216"
proof -
  show "(a * 65536 + b * 256 + c) div 65536 = a" using assms by simp
  have "(a * 65536 + b * 256 + c) div 256 = a * 256 + b" using assms by simp
  then show "(a * 65536 + b * 256 + c) div 256 mod 256 = b" using assms by simp
  have "(c + 256 * (a * 256 + b)) mod 256 = c mod 256" by (rule mod_mult_self2)
  moreover have "c + 256 * (a * 256 + b) = a * 65536 + b * 256 + c" by simp
  ultimately show "(a * 65536 + b * 256 + c) mod 256 = c" using assms by (simp add: ac_simps)
  show "a * 65536 + b * 256 + c < 16777216" using assms by simp
qed

lemma m64: fixes a b :: nat shows "(a * 65536 + b * 256) mod 64 = 0"
proof -
  have "a * 65536 + b * 256 = 64 * (a * 1024 + b * 4)" by simp
  then show ?thesis by (simp del: mult_Suc_right)
qed

lemma m4096: fixes a :: nat shows "(a * 65536) mod 64 = 0" "(a * 65536) div 64 mod 64 = 0"
proof -
  have e: "a * 65536 = 64 * (a * 1024)" by simp
  show "(a * 65536) mod 64 = 0" by (subst e) simp
  have "(a * 65536) div 64 = 64 * (a * 16)" by simp
  then show "(a * 65536) div 64 mod 64 = 0" by simp
qed

lemma b64_roundtrip: "b64_decode (b64_encode bs) = Some bs"
proof (induction bs rule: b64_encode.induct)
  case (1 a b c rest)
  define v :: nat where "v = of_char a * 65536 + of_char b * 256 + of_char c"
  have lt: "of_char a < (256::nat)" "of_char b < (256::nat)" "of_char c < (256::nat)" by simp_all
  have v: "v < 16777216" unfolding v_def using bytes3(4) [OF lt] .
  have s: "(v div 262144 mod 64) * 262144 + (v div 4096 mod 64) * 4096
          + (v div 64 mod 64) * 64 + v mod 64 = v" using sextets_val [OF v] .
  have ca: "char_of (v div 65536) = a"
    unfolding v_def using bytes3(1) [OF lt] by simp
  have "char_of (v div 256 mod 256) = b"
    unfolding v_def using bytes3(2) [OF lt] by simp
  then have cb: "char_of (v div 256) = b" by simp
  have "char_of (v mod 256) = c"
    unfolding v_def using bytes3(3) [OF lt] by simp
  then have cc: "char_of v = c" by simp
  have "b64_decode (b64_encode (a # b # c # rest)) =
     b64_decode (b64_char (v div 262144 mod 64) # b64_char (v div 4096 mod 64)
        # b64_char (v div 64 mod 64) # b64_char (v mod 64) # b64_encode rest)"
    by (simp add: Let_def v_def)
  also have "\<dots> = map_option (\<lambda>bs. char_of (v div 65536) # char_of (v div 256) # char_of v # bs)
       (b64_decode (b64_encode rest))"
    by (subst b64_decode_quantum [OF b64_index_char b64_index_char b64_index_char b64_index_char])
       (simp_all add: s)
  finally show ?case using 1 ca cb cc by simp
next
  case (2 a b)
  define v :: nat where "v = of_char a * 65536 + of_char b * 256"
  have lt: "of_char a < (256::nat)" "of_char b < (256::nat)" "(0::nat) < 256" by simp_all
  have v: "v < 16777216" unfolding v_def using bytes3(4) [OF lt] by simp
  have m: "v mod 64 = 0" unfolding v_def by (rule m64)
  have s: "(v div 262144 mod 64) * 262144 + (v div 4096 mod 64) * 4096
          + (v div 64 mod 64) * 64 = v"
    using sextets_val [OF v] by (simp only: m Nat.add_0_right)
  have ca: "char_of (v div 65536) = a"
    unfolding v_def using bytes3(1) [OF lt] by simp
  have "char_of (v div 256 mod 256) = b"
    unfolding v_def using bytes3(2) [OF lt] by simp
  then have cb: "char_of (v div 256) = b" by simp
  have "b64_decode (b64_encode [a, b]) =
     b64_decode [b64_char (v div 262144 mod 64), b64_char (v div 4096 mod 64),
        b64_char (v div 64 mod 64), CHR ''='']"
    by (simp add: Let_def v_def)
  also have "\<dots> = Some [char_of (v div 65536), char_of (v div 256)]"
    by (simp add: b64_index_char b64_char_not_pad s Let_def)
  finally show ?case using ca cb by simp
next
  case (3 a)
  define v :: nat where "v = of_char a * 65536"
  have lt: "of_char a < (256::nat)" "(0::nat) < 256" "(0::nat) < 256" by simp_all
  have v: "v < 16777216" unfolding v_def using bytes3(4) [OF lt] by simp
  have m: "v mod 64 = 0" "v div 64 mod 64 = 0" unfolding v_def by (rule m4096)+
  have s: "(v div 262144 mod 64) * 262144 + (v div 4096 mod 64) * 4096 = v"
    using sextets_val [OF v] by (simp only: m Nat.add_0_right mult_0)
  have ca: "char_of (v div 65536) = a"
    unfolding v_def by simp
  have "b64_decode (b64_encode [a]) =
     b64_decode [b64_char (v div 262144 mod 64), b64_char (v div 4096 mod 64),
        CHR ''='', CHR ''='']"
    by (simp add: Let_def v_def)
  also have "\<dots> = Some [char_of (v div 65536)]"
    by (simp add: b64_index_char s Let_def)
  finally show ?case using ca by simp
next
  case 4
  then show ?case by simp
qed


lemma span_str_safe:
  "\<forall>c \<in> set body. str_safe c \<Longrightarrow> span_str (body @ dquote # rest) = Some (body, rest)"
  by (induction body) (simp_all add: str_safe_def)

lemma drop_newlines_safe: "\<forall>c \<in> set s. str_safe c \<Longrightarrow> drop_newlines s = s"
  by (induction s) (auto simp add: drop_newlines_def str_safe_def)

lemma alphabet_safe: "\<forall>c \<in> set b64_alphabet. str_safe c"
  by (simp add: b64_alphabet_def str_safe_def dquote_def backslash_def)

lemma pad_safe: "str_safe (CHR ''='')"
  by (simp add: str_safe_def dquote_def backslash_def)

lemma b64_char_safe: "n < 64 \<Longrightarrow> str_safe (b64_char n)"
  using alphabet_safe b64_char_mem by blast

lemma b64_encode_safe: "\<forall>c \<in> set (b64_encode bs). str_safe c"
  by (induction bs rule: b64_encode.induct) (simp_all add: Let_def b64_char_safe pad_safe)

lemma parse_elem_encode: "parse_elem (encode_elem x @ rest) = Some (x, rest)"
proof (cases x)
  case NilSlice
  then show ?thesis by (simp add: parse_elem_def encode_elem_def dquote_def)
next
  case (Slice bs)
  have "span_str (b64_encode bs @ dquote # rest) = Some (b64_encode bs, rest)"
    using b64_encode_safe by (rule span_str_safe)
  moreover have "drop_newlines (b64_encode bs) = b64_encode bs"
    using b64_encode_safe by (rule drop_newlines_safe)
  ultimately show ?thesis using Slice by (simp add: parse_elem_def encode_elem_def b64_roundtrip)
qed

lemma encode_elem_not_space: "\<exists>c cs. encode_elem x = c # cs \<and> \<not> is_space c \<and> c \<noteq> CHR '']''"
  by (cases x) (simp_all add: encode_elem_def is_space_def dquote_def)

lemma skip_ws_encode_elem: "skip_ws (encode_elem x @ rest) = encode_elem x @ rest"
  using encode_elem_not_space [of x] by auto

lemma parse_tail_encode_rest:
  "parse_tail (encode_rest xs @ CHR '']'' # rest) = Some xs"
proof (induction xs)
  case Nil
  show ?case by (subst parse_tail.simps) (simp add: is_space_def)
next
  case (Cons x xs)
  show ?case
    by (subst parse_tail.simps)
       (simp add: is_space_def skip_ws_encode_elem parse_elem_encode Cons.IH)
qed

text \<open>The decoder returns the first value and does not look at what follows it.\<close>

lemma json_decode_first_value:
  "json_decode (CHR ''['' # encode_elems xs @ CHR '']'' # rest) = Some xs"
proof (cases xs)
  case Nil
  then show ?thesis by (simp add: json_decode_def is_space_def)
next
  case (Cons x ys)
  obtain c cs where c: "encode_elem x = c # cs" "\<not> is_space c" "c \<noteq> CHR '']''"
    using encode_elem_not_space by blast
  have "skip_ws (encode_elem x @ encode_rest ys @ CHR '']'' # rest)
        = c # cs @ encode_rest ys @ CHR '']'' # rest"
    using c by simp
  moreover have "parse_elem (c # cs @ encode_rest ys @ CHR '']'' # rest)
        = Some (x, encode_rest ys @ CHR '']'' # rest)"
    using parse_elem_encode [of x "encode_rest ys @ CHR '']'' # rest"] c by simp
  moreover have "parse_tail (encode_rest ys @ CHR '']'' # rest) = Some ys"
    by (rule parse_tail_encode_rest)
  ultimately show ?thesis
    using Cons c by (simp add: json_decode_def is_space_def Let_def)
qed

lemma json_roundtrip: "json_decode (json_encode xs) = Some xs"
  using json_decode_first_value [of xs "[newline]"] by (simp add: json_encode_def)

subsection \<open>The decoder on input that persist does not write\<close>

lemma json_decode_number_array: "json_decode ''[[65,66],[],[ 7 , null ]]'' = Some [Slice ''AB'', Slice [], Slice [CHR 0x07, char_of (0::nat)]]"
  by (simp add: json_decode_def parse_elem_def parse_bytes_def parse_byte_def
      parse_bytes_tail.simps parse_tail.simps is_space_def is_digit_def dec_val_def dquote_def
      Let_def char_of_def bit_Suc_0_iff)

lemma json_decode_escapes:
  "json_decode (CHR ''['' # dquote # backslash # ''u0051Q'' @ backslash # ''n=='' @ [dquote, CHR '']''])
     = Some [Slice ''A'']"
  by (simp add: json_decode_def parse_elem_def parse_tail.simps is_space_def dquote_def
      backslash_def unicode_escape_def hex_val_def simple_escape_def drop_newlines_def
      b64_index_def b64_alphabet_def Let_def char_of_def bit_Suc_0_iff)

lemma json_decode_rejects:
  "json_decode ''[[256]]'' = None \<and> json_decode ''[[1.0]]'' = None \<and> json_decode ''[true]'' = None
   \<and> json_decode (CHR ''['' # dquote # ''QQ='') = None"
  by (simp add: json_decode_def parse_elem_def parse_bytes_def parse_byte_def
      parse_bytes_tail.simps parse_tail.simps is_space_def is_digit_def dec_val_def dquote_def
      backslash_def Let_def)

lemma load_number_array:
  "load ''s.json'' NoFault q [''s.json'' \<mapsto> ''[[65,66]]'']
     = (None, q\<lparr>data := [Slice ''AB''], bytes := 2\<rparr>)"
proof -
  have "json_decode ''[[65,66]]'' = Some [Slice ''AB'']"
    by (simp add: json_decode_def parse_elem_def parse_bytes_def parse_byte_def
        parse_bytes_tail.simps parse_tail.simps is_space_def is_digit_def dec_val_def dquote_def
        Let_def char_of_def bit_Suc_0_iff)
  then show ?thesis by (simp add: load_def load_with_def slice_len_def)
qed

section \<open>Signed 64-bit arithmetic\<close>

lemma sint_of_nat_small: "n < 2 ^ 63 \<Longrightarrow> sint (of_nat n :: 64 word) = int n"
  by (simp add: signed_of_nat signed_take_bit_int_eq_self)


lemma sint_add_nat_bounded:
  fixes w :: "64 word"
  assumes "0 \<le> sint w" "sint w + int n < 2 ^ 63"
  shows "sint (w + of_nat n) = sint w + int n"
proof -
  have "w + of_nat n = word_of_int (sint w + int n)" by simp
  then have "sint (w + of_nat n) = signed_take_bit 63 (sint w + int n)"
    by (simp only: sint_sbintrunc') simp
  then show ?thesis using assms by (simp add: signed_take_bit_int_eq_self)
qed

lemma sint_sub_nat:
  fixes w :: "64 word"
  assumes "sint w = int (n + r)"
  shows "sint (w - of_nat n) = int r"
proof -
  have "w = word_of_int (sint w)" by simp
  then have "w = of_nat (n + r)" using assms by (simp only: of_int_of_nat_eq)
  then have e: "w - of_nat n = of_nat r" by simp
  have "int (n + r) < 2 ^ 63" using sint_lt [of w] assms by simp
  then have "r < 2 ^ 63" by simp
  then show ?thesis using e sint_of_nat_small by simp
qed

section \<open>Oversized payloads\<close>

text \<open>
  C4. An item longer than \<open>maxBody\<close> is rejected with the too-large error whatever the
  queue holds and whatever the caps are (so also when there is room, the size check
  coming first): never with the full error, and the counters (the admitted one among
  them) and the queue stay as they were.
\<close>

theorem enqueue_oversized_rejected:
  assumes "slice_len b > maxBody"
  shows "enqueue b g q = (Some PayloadTooLarge, g, q)
    \<and> fst (enqueue b g q) \<noteq> Some QueueFull
    \<and> enqueueCnt (fst (snd (enqueue b g q))) = enqueueCnt g
    \<and> snd (snd (enqueue b g q)) = q"
  using assms by (simp add: enqueue_def)

theorem enqueue_oversized_rejected_witness:
  "maxBody < slice_len (Slice (replicate 131073 (CHR ''x'')))
   \<and> enqueue (Slice (replicate 131073 (CHR ''x''))) default_globals new_queue
       = (Some PayloadTooLarge, default_globals, new_queue)"
  using enqueue_oversized_rejected
    [of "Slice (replicate 131073 (CHR ''x''))" default_globals new_queue]
  by (simp add: slice_len_def maxBody_def)

section \<open>The size boundary\<close>



section \<open>Dequeue\<close>

text \<open>
  C5. On an empty queue \<open>dequeue\<close> reports nothing (\<open>nil, false\<close>), adds one to the miss
  counter and leaves the items, the byte total and the other counters alone. On a
  non-empty queue it returns the head item (index 0) with \<open>true\<close>, keeps the remaining
  items in their order, takes the item's length off the byte total and adds one to the
  removed counter.
\<close>

theorem dequeue_contract:
  "(data q = [] \<longrightarrow>
      dequeue g q = ((NilSlice, False), g\<lparr>dequeueMiss := dequeueMiss g + 1\<rparr>, q))
   \<and> (data q \<noteq> [] \<longrightarrow>
      fst (dequeue g q) = (data q ! 0, True)
      \<and> fst (snd (dequeue g q)) = g\<lparr>dequeueCnt := dequeueCnt g + 1\<rparr>
      \<and> data (snd (snd (dequeue g q))) = tl (data q)
      \<and> data q = fst (fst (dequeue g q)) # data (snd (snd (dequeue g q)))
      \<and> bytes (snd (snd (dequeue g q))) = bytes q - of_nat (slice_len (data q ! 0)))"
  by (cases "data q") (simp_all add: dequeue_def)

theorem dequeue_contract_witness:
  "dequeue default_globals new_queue
     = ((NilSlice, False), default_globals\<lparr>dequeueMiss := 1\<rparr>, new_queue)
   \<and> dequeue default_globals \<lparr>data = [Slice ''ab'', Slice ''c''], bytes = 3\<rparr>
     = ((Slice ''ab'', True), default_globals\<lparr>dequeueCnt := 1\<rparr>,
        \<lparr>data = [Slice ''c''], bytes = 1\<rparr>)"
proof -
  have e: "dequeue default_globals new_queue
     = ((NilSlice, False), default_globals\<lparr>dequeueMiss := 1\<rparr>, new_queue)"
    using dequeue_contract [of new_queue default_globals]
    by (simp add: new_queue_def default_globals_def)
  have n: "dequeue default_globals \<lparr>data = [Slice ''ab'', Slice ''c''], bytes = 3\<rparr>
     = ((Slice ''ab'', True), default_globals\<lparr>dequeueCnt := 1\<rparr>,
        \<lparr>data = [Slice ''c''], bytes = 1\<rparr>)"
    using dequeue_contract [of "\<lparr>data = [Slice ''ab'', Slice ''c''], bytes = 3\<rparr>" default_globals]
    by (simp add: default_globals_def slice_len_def prod_eq_iff)
  from e n show ?thesis by simp
qed

section \<open>Clear\<close>

text \<open>
  C9. \<open>clear\<close> leaves no item and a byte total of zero, and the three cumulative
  counters (admitted, removed, missed) keep the values they had.
\<close>

theorem clear_frame:
  "data (snd (clear g q)) = [] \<and> bytes (snd (clear g q)) = 0
   \<and> length_q (snd (clear g q)) = 0 \<and> size_q (snd (clear g q)) = 0
   \<and> enqueueCnt (fst (clear g q)) = enqueueCnt g
   \<and> dequeueCnt (fst (clear g q)) = dequeueCnt g
   \<and> dequeueMiss (fst (clear g q)) = dequeueMiss g"
  by (simp add: clear_def length_q_def size_q_def)

section \<open>Byte accounting\<close>

lemma slice_len_append_copy: "slice_len (append_copy b) = slice_len b"
  by (simp add: append_copy_def slice_len_def)

lemma contents_append_copy: "contents (append_copy b) = contents b"
  by (simp add: append_copy_def slice_len_def)

lemma foldl_total:
  "foldl (\<lambda>t b. t + of_nat (slice_len b)) (a :: 64 word) d
     = a + of_nat (sum_list (map slice_len d))"
  by (induction d arbitrary: a) (simp_all add: algebra_simps)

lemma accounted_new: "accounted new_queue"
  by (simp add: accounted_def new_queue_def held_bytes_def)

lemma accounted_enqueue: "accounted q \<Longrightarrow> accounted (snd (snd (enqueue b g q)))"
  by (simp add: accounted_def enqueue_def held_bytes_def Let_def slice_len_append_copy)

lemma accounted_dequeue: "accounted q \<Longrightarrow> accounted (snd (snd (dequeue g q)))"
  by (cases "data q") (simp_all add: accounted_def dequeue_def held_bytes_def)

lemma accounted_clear: "accounted (snd (clear g q))"
  by (simp add: accounted_def clear_def held_bytes_def)

lemma load_with_cases:
  "load_with dec p flt q fs = (e, q') \<Longrightarrow>
     (e \<noteq> None \<and> q' = q) \<or>
     (\<exists>c d. e = None \<and> fs p = Some c \<and> dec c = Some d
        \<and> q' = q\<lparr>data := d, bytes := of_nat (sum_list (map slice_len d))\<rparr>)"
  by (auto simp add: load_with_def foldl_total Let_def split: if_splits option.splits)

lemma accounted_load_with: "accounted q \<Longrightarrow> accounted (snd (load_with dec p flt q fs))"
  using load_with_cases [of dec p flt q fs "fst (load_with dec p flt q fs)" "snd (load_with dec p flt q fs)"]
  by (auto simp add: accounted_def held_bytes_def)

lemma accounted_step: "accounted (fst (snd w)) \<Longrightarrow> accounted (fst (snd (step x w)))"
proof (cases w)
  case (fields g q fs)
  assume a: "accounted (fst (snd w))"
  show ?thesis
  proof (cases x)
    case (Enqueue b)
    then show ?thesis using a fields accounted_enqueue [of q b g]
      by (auto split: prod.splits)
  next
    case Dequeue
    then show ?thesis using a fields accounted_dequeue [of q g]
      by (auto split: prod.splits)
  next
    case Clear
    then show ?thesis using a fields accounted_clear [of g q]
      by (auto split: prod.splits)
  next
    case (Persist p flt)
    then show ?thesis using a fields by simp
  next
    case (Load p flt)
    then show ?thesis using a fields accounted_load_with [of q json_decode p flt fs]
      by (simp add: load_def)
  qed
qed

lemma accounted_run: "accounted (fst (snd w)) \<Longrightarrow> accounted (fst (snd (run ops w)))"
  by (induction ops arbitrary: w) (simp_all add: accounted_step)

text \<open>
  C3. After any sequence of calls (enqueue, dequeue, clear, persist, load, failing or not)
  on a queue that started empty, \<open>size()\<close> is the sum of the lengths of the items held:
  as \<open>int64\<close> values always, and as numbers whenever that sum fits an \<open>int64\<close>. A
  successful \<open>load\<close> into any queue, whatever byte total it had stored, leaves the total
  recomputed from the decoded items.
\<close>

theorem byte_accounting:
  "size_q (fst (snd (run ops (g, new_queue, fs))))
     = of_nat (held_bytes (fst (snd (run ops (g, new_queue, fs)))))
   \<and> (held_bytes (fst (snd (run ops (g, new_queue, fs)))) < 2 ^ 63 \<longrightarrow>
        sint (size_q (fst (snd (run ops (g, new_queue, fs)))))
          = int (held_bytes (fst (snd (run ops (g, new_queue, fs))))))
   \<and> (load p flt q fs' = (None, q') \<longrightarrow> size_q q' = of_nat (held_bytes q'))"
proof -
  have a: "accounted (fst (snd (run ops (g, new_queue, fs))))"
    using accounted_run [of "(g, new_queue, fs)" ops] accounted_new by simp
  have l: "load p flt q fs' = (None, q') \<longrightarrow> size_q q' = of_nat (held_bytes q')"
    using load_with_cases [of json_decode p flt q fs' None q']
    by (auto simp add: load_def size_q_def held_bytes_def)
  show ?thesis using a l by (simp add: accounted_def size_q_def sint_of_nat_small)
qed

theorem byte_accounting_witness:
  "fst (snd (run [Enqueue (Slice ''ab''), Enqueue (Slice ''c''), Dequeue]
       (default_globals, new_queue, Map.empty)))
     = \<lparr>data = [Slice ''c''], bytes = 1\<rparr>
   \<and> held_bytes \<lparr>data = [Slice ''c''], bytes = 1\<rparr> = 1
   \<and> sint (size_q \<lparr>data = [Slice ''c''], bytes = 1\<rparr>) = 1
   \<and> load ''s.json'' NoFault \<lparr>data = [], bytes = 77\<rparr>
        [''s.json'' \<mapsto> json_encode [Slice ''ab'']]
       = (None, \<lparr>data = [Slice ''ab''], bytes = 2\<rparr>)
   \<and> size_q \<lparr>data = [Slice ''ab''], bytes = 2\<rparr> = 2"
proof -
  have r: "fst (snd (run [Enqueue (Slice ''ab''), Enqueue (Slice ''c''), Dequeue]
       (default_globals, new_queue, Map.empty)))
     = \<lparr>data = [Slice ''c''], bytes = 1\<rparr>"
    by (simp add: enqueue_def dequeue_def default_globals_def new_queue_def maxBody_def
        append_copy_def slice_len_def Let_def)
  have h: "held_bytes \<lparr>data = [Slice ''c''], bytes = 1\<rparr> = 1"
    by (simp add: held_bytes_def slice_len_def)
  have l: "load ''s.json'' NoFault \<lparr>data = [], bytes = 77\<rparr>
        [''s.json'' \<mapsto> json_encode [Slice ''ab'']]
       = (None, \<lparr>data = [Slice ''ab''], bytes = 2\<rparr>)"
    by (simp add: load_def load_with_def json_roundtrip slice_len_def)
  have "size_q (fst (snd (run [Enqueue (Slice ''ab''), Enqueue (Slice ''c''), Dequeue]
       (default_globals, new_queue, Map.empty))))
     = of_nat (held_bytes (fst (snd (run [Enqueue (Slice ''ab''), Enqueue (Slice ''c''), Dequeue]
       (default_globals, new_queue, Map.empty)))))
   \<and> (held_bytes (fst (snd (run [Enqueue (Slice ''ab''), Enqueue (Slice ''c''), Dequeue]
       (default_globals, new_queue, Map.empty)))) < 2 ^ 63 \<longrightarrow>
        sint (size_q (fst (snd (run [Enqueue (Slice ''ab''), Enqueue (Slice ''c''), Dequeue]
       (default_globals, new_queue, Map.empty)))))
          = int (held_bytes (fst (snd (run [Enqueue (Slice ''ab''), Enqueue (Slice ''c''), Dequeue]
       (default_globals, new_queue, Map.empty))))))
   \<and> (load ''s.json'' NoFault \<lparr>data = [], bytes = 77\<rparr>
        [''s.json'' \<mapsto> json_encode [Slice ''ab'']]
       = (None, \<lparr>data = [Slice ''ab''], bytes = 2\<rparr>) \<longrightarrow>
       size_q \<lparr>data = [Slice ''ab''], bytes = 2\<rparr>
         = of_nat (held_bytes \<lparr>data = [Slice ''ab''], bytes = 2\<rparr>))"
    by (rule byte_accounting)
  then have "sint (size_q \<lparr>data = [Slice ''c''], bytes = 1\<rparr>) = 1
     \<and> size_q \<lparr>data = [Slice ''ab''], bytes = 2\<rparr> = 2"
    using l h by (simp only: r) (simp add: held_bytes_def slice_len_def)
  then show ?thesis using r h l by simp
qed

section \<open>FIFO order\<close>

lemma enqueue_data:
  "data (snd (snd (enqueue b g q)))
     = (if fst (enqueue b g q) = None then data q @ [append_copy b] else data q)"
  by (simp add: enqueue_def Let_def)

lemma enqueue_all_data:
  "enqueue_all es g q = (rs, g1, q1) \<Longrightarrow>
     length rs = length es \<and>
     data q1 = data q @ map (append_copy \<circ> fst) (filter (\<lambda>(e, r). r = None) (zip es rs))"
proof (induction es arbitrary: g q rs g1 q1)
  case Nil
  then show ?case by simp
next
  case (Cons e es)
  obtain r g' q' where e: "enqueue e g q = (r, g', q')" by (cases "enqueue e g q") auto
  obtain rs' g'' q'' where a: "enqueue_all es g' q' = (rs', g'', q'')"
    by (cases "enqueue_all es g' q'") auto
  have eq: "rs = r # rs'" "g1 = g''" "q1 = q''" using Cons.prems e a by simp_all
  have d: "data q' = (if r = None then data q @ [append_copy e] else data q)"
    using enqueue_data [of e g q] e by simp
  show ?case using Cons.IH [OF a] eq d by auto
qed

lemma dequeue_n_Suc:
  "fst (dequeue_n (Suc n) g q)
     = fst (dequeue g q) # fst (dequeue_n n (fst (snd (dequeue g q))) (snd (snd (dequeue g q))))"
  by (simp split: prod.splits)

lemma dequeue_n_drain:
  "data q = xs \<Longrightarrow>
     fst (dequeue_n (Suc (length xs)) g q) = map (\<lambda>m. (m, True)) xs @ [(NilSlice, False)]"
proof (induction xs arbitrary: g q)
  case Nil
  then show ?case by (simp add: dequeue_def)
next
  case (Cons x xs)
  have r: "fst (dequeue g q) = (x, True)" "data (snd (snd (dequeue g q))) = xs"
    using Cons.prems by (simp_all add: dequeue_def)
  have "fst (dequeue_n (Suc (length (x # xs))) g q)
      = (x, True) # fst (dequeue_n (Suc (length xs)) (fst (snd (dequeue g q))) (snd (snd (dequeue g q))))"
    using r(1) by (simp add: dequeue_n_Suc del: dequeue_n.simps)
  then show ?case using Cons.IH [OF r(2)] by (simp del: dequeue_n.simps)
qed

text \<open>
  C2. When the enqueues of \<open>E1..En\<close> all succeed and no dequeue comes between them, the
  dequeues that follow return the items the queue already held and then \<open>E1..En\<close>, each
  once and in that order (as the copies \<open>enqueue\<close> stored, which have the same bytes),
  and the next dequeue finds the queue empty. With \<open>maxMsgs = 2\<close> on a new queue:
  enqueue A and B are accepted, C is rejected as full, and three dequeues return A, B
  and nothing.
\<close>

theorem fifo_order:
  "(enqueue_all es g q = (rs, g1, q1) \<and> (\<forall>r \<in> set rs. r = None) \<longrightarrow>
      fst (dequeue_n (length (data q) + length es + 1) g1 q1)
        = map (\<lambda>m. (m, True)) (data q @ map append_copy es) @ [(NilSlice, False)])
   \<and> contents (append_copy e) = contents e
   \<and> (case enqueue_all [Slice ''A'', Slice ''B'', Slice ''C'']
              (default_globals\<lparr>maxMsgs := 2\<rparr>) new_queue of
        (rs', g', q') \<Rightarrow>
          rs' = [None, None, Some QueueFull]
          \<and> fst (dequeue_n 3 g' q')
              = [(Slice ''A'', True), (Slice ''B'', True), (NilSlice, False)])"
proof -
  have general: "fst (dequeue_n (length (data q) + length es + 1) g1 q1)
        = map (\<lambda>m. (m, True)) (data q @ map append_copy es) @ [(NilSlice, False)]"
    if a: "enqueue_all es g q = (rs, g1, q1)" and ok: "\<forall>r \<in> set rs. r = None"
  proof -
    have l: "length rs = length es"
      and d: "data q1 = data q @ map (append_copy \<circ> fst) (filter (\<lambda>(e, r). r = None) (zip es rs))"
      using enqueue_all_data [OF a] by simp_all
    have "filter (\<lambda>(e, r). r = None) (zip es rs) = zip es rs"
      using ok by (auto simp add: filter_id_conv dest: set_zip_rightD)
    moreover have "map (append_copy \<circ> fst) (zip es rs) = map append_copy (map fst (zip es rs))"
      by simp
    ultimately have "data q1 = data q @ map append_copy es"
      using d l by (simp only: map_fst_zip)
    then show ?thesis using dequeue_n_drain [of q1 "data q @ map append_copy es" g1]
      by (simp del: dequeue_n.simps)
  qed
  have scenario: "case enqueue_all [Slice ''A'', Slice ''B'', Slice ''C'']
              (default_globals\<lparr>maxMsgs := 2\<rparr>) new_queue of
        (rs', g', q') \<Rightarrow>
          rs' = [None, None, Some QueueFull]
          \<and> fst (dequeue_n 3 g' q')
              = [(Slice ''A'', True), (Slice ''B'', True), (NilSlice, False)]"
    by (simp add: enqueue_def dequeue_def default_globals_def new_queue_def maxBody_def
        append_copy_def slice_len_def Let_def numeral_3_eq_3)
  show ?thesis using general scenario by (simp add: contents_append_copy)
qed

theorem fifo_order_witness:
  "enqueue_all [Slice ''x'', Slice ''yz''] default_globals new_queue
     = ([None, None], default_globals\<lparr>enqueueCnt := 2\<rparr>,
        \<lparr>data = [Slice ''x'', Slice ''yz''], bytes = 3\<rparr>)
   \<and> fst (dequeue_n 3 (default_globals\<lparr>enqueueCnt := 2\<rparr>)
        \<lparr>data = [Slice ''x'', Slice ''yz''], bytes = 3\<rparr>)
       = [(Slice ''x'', True), (Slice ''yz'', True), (NilSlice, False)]"
proof -
  have e: "enqueue_all [Slice ''x'', Slice ''yz''] default_globals new_queue
     = ([None, None], default_globals\<lparr>enqueueCnt := 2\<rparr>,
        \<lparr>data = [Slice ''x'', Slice ''yz''], bytes = 3\<rparr>)"
    by (simp add: enqueue_def default_globals_def new_queue_def maxBody_def
        append_copy_def slice_len_def Let_def)
  have p: "enqueue_all [Slice ''x'', Slice ''yz''] default_globals new_queue
     = ([None, None], default_globals\<lparr>enqueueCnt := 2\<rparr>,
        \<lparr>data = [Slice ''x'', Slice ''yz''], bytes = 3\<rparr>)
     \<and> (\<forall>r \<in> set [None :: error option, None]. r = None)"
    using e by simp
  have "fst (dequeue_n (length (data new_queue) + length [Slice ''x'', Slice ''yz''] + 1)
          (default_globals\<lparr>enqueueCnt := 2\<rparr>)
          \<lparr>data = [Slice ''x'', Slice ''yz''], bytes = 3\<rparr>)
        = map (\<lambda>m. (m, True)) (data new_queue @ map append_copy [Slice ''x'', Slice ''yz''])
          @ [(NilSlice, False)]"
    using fifo_order [THEN conjunct1, THEN mp, OF p] .
  then have "fst (dequeue_n 3 (default_globals\<lparr>enqueueCnt := 2\<rparr>)
        \<lparr>data = [Slice ''x'', Slice ''yz''], bytes = 3\<rparr>)
       = [(Slice ''x'', True), (Slice ''yz'', True), (NilSlice, False)]"
    by (simp add: new_queue_def append_copy_def slice_len_def dequeue_def numeral_3_eq_3)
  then show ?thesis using e by simp
qed

section \<open>Persist\<close>

lemma tmp_neq: "p @ ''.tmp'' \<noteq> p"
proof
  assume "p @ ''.tmp'' = p"
  then have "length (p @ ''.tmp'') = length p" by simp
  then show False by simp
qed

lemma write_states_other:
  "s \<in> set (write_states path content k fs) \<Longrightarrow> x \<noteq> path \<Longrightarrow> s x = fs x"
  by (auto simp add: write_states_def)

lemma last_write_states:
  "last (write_states path content k fs) = fs(path \<mapsto> take (min k (length content)) content)"
  by (simp add: write_states_def last_map del: upt_Suc)

lemma write_states_nonempty: "write_states path content k fs \<noteq> []"
  by (simp add: write_states_def del: upt_Suc)

lemma persist_states_nonempty: "snd (persist_states p flt q fs) \<noteq> []"
  by (cases flt) (simp_all add: persist_states_def Let_def)

text \<open>Until the rename, no state of a \<open>persist\<close> call differs from the first at the destination.\<close>

lemma persist_states_before_rename:
  assumes "s \<in> set (butlast (snd (persist_states p flt q fs))) \<or>
           (fst (persist_states p flt q fs) \<noteq> None \<and> s \<in> set (snd (persist_states p flt q fs)))"
  shows "s p = fs p"
proof -
  let ?tmp = "p @ ''.tmp''"
  let ?fs1 = "os_create ?tmp fs"
  have n: "p \<noteq> ?tmp" using tmp_neq [of p] by simp
  have c: "?fs1 p = fs p" using n by (simp add: os_create_def)
  have w: "\<And>k s. s \<in> set (write_states ?tmp (json_encode (data q)) k ?fs1) \<Longrightarrow> s p = fs p"
    using write_states_other [OF _ n] c by metis
  show ?thesis
    using assms c w
    by (cases flt) (auto simp add: persist_states_def Let_def butlast_append
        write_states_nonempty split: if_splits dest: in_set_butlastD)
qed

lemma persist_success:
  assumes "flt \<noteq> FailCreate" "\<forall>k. flt \<noteq> FailWrite k" "flt \<noteq> FailClose" "flt \<noteq> FailRename"
  shows "fst (persist p flt q fs) = None"
    and "snd (persist p flt q fs) p = Some (json_encode (data q))"
    and "snd (persist p flt q fs) (p @ ''.tmp'') = None"
proof -
  let ?tmp = "p @ ''.tmp''"
  let ?out = "json_encode (data q)"
  have n: "?tmp \<noteq> p" by (rule tmp_neq)
  have l: "last (write_states ?tmp ?out (length ?out) (os_create ?tmp fs))
            = (os_create ?tmp fs)(?tmp \<mapsto> ?out)"
    by (simp add: last_write_states)
  have r: "os_rename ?tmp p ((os_create ?tmp fs)(?tmp \<mapsto> ?out))
            = ((fs(?tmp \<mapsto> ?out))(p \<mapsto> ?out))(?tmp := None)"
    using n by (simp add: os_rename_def os_create_def)
  have p: "persist p flt q fs = (None, ((fs(?tmp \<mapsto> ?out))(p \<mapsto> ?out))(?tmp := None))"
    using assms l r by (cases flt) (simp_all add: persist_def persist_states_def Let_def)
  show "fst (persist p flt q fs) = None" using p by simp
  show "snd (persist p flt q fs) p = Some ?out" using p n by simp
  show "snd (persist p flt q fs) ?tmp = None" using p by simp
qed

lemma persist_failure:
  assumes "flt = FailCreate \<or> (\<exists>k. flt = FailWrite k) \<or> flt = FailClose \<or> flt = FailRename"
  shows "fst (persist_states p flt q fs) = Some IOError"
  using assms by (auto simp add: persist_states_def Let_def)

lemma fst_persist: "fst (persist p flt q fs) = fst (persist_states p flt q fs)"
  by (simp add: persist_def split: prod.splits)

lemma snd_persist: "snd (persist p flt q fs) = last (snd (persist_states p flt q fs))"
  by (simp add: persist_def split: prod.splits)

text \<open>
  A \<open>persist\<close> call that runs alone: in every state the file system goes through, the
  destination holds what it held before or the complete snapshot, and before the last
  step what it held before. When creating the temporary file, writing, closing or
  renaming fails, the call returns the error and the destination is as it was. When
  it returns no error, the destination holds the snapshot and \<open>p.tmp\<close> is gone.
\<close>

lemma persist_alone_atomic:
  "(\<forall>s \<in> set (snd (persist_states p flt q fs)).
       s p = fs p \<or> s p = Some (json_encode (data q)))
   \<and> (\<forall>s \<in> set (butlast (snd (persist_states p flt q fs))). s p = fs p)
   \<and> json_decode (json_encode (data q)) = Some (data q)
   \<and> (flt = FailCreate \<or> (\<exists>k. flt = FailWrite k) \<or> flt = FailClose \<or> flt = FailRename \<longrightarrow>
        fst (persist p flt q fs) = Some IOError)
   \<and> (fst (persist p flt q fs) \<noteq> None \<longrightarrow>
        snd (persist p flt q fs) p = fs p
        \<and> (\<forall>s \<in> set (snd (persist_states p flt q fs)). s p = fs p))
   \<and> (fst (persist p flt q fs) = None \<longrightarrow>
        snd (persist p flt q fs) p = Some (json_encode (data q))
        \<and> snd (persist p flt q fs) (p @ ''.tmp'') = None)"
proof -
  let ?tr = "snd (persist_states p flt q fs)"
  have ne: "?tr \<noteq> []" by (rule persist_states_nonempty)
  have b: "\<forall>s \<in> set (butlast ?tr). s p = fs p"
    using persist_states_before_rename by blast
  have f: "fst (persist p flt q fs) \<noteq> None \<longrightarrow> (\<forall>s \<in> set ?tr. s p = fs p)"
    using persist_states_before_rename fst_persist by metis
  have f': "fst (persist p flt q fs) \<noteq> None \<longrightarrow> snd (persist p flt q fs) p = fs p"
    using f ne by (simp add: snd_persist)
  have e: "flt = FailCreate \<or> (\<exists>k. flt = FailWrite k) \<or> flt = FailClose \<or> flt = FailRename \<longrightarrow>
        fst (persist p flt q fs) = Some IOError"
    using persist_failure fst_persist by metis
  have s: "fst (persist p flt q fs) = None \<longrightarrow>
        snd (persist p flt q fs) p = Some (json_encode (data q))
        \<and> snd (persist p flt q fs) (p @ ''.tmp'') = None"
  proof
    assume a: "fst (persist p flt q fs) = None"
    then have "flt \<noteq> FailCreate" "\<forall>k. flt \<noteq> FailWrite k" "flt \<noteq> FailClose" "flt \<noteq> FailRename"
      using e by auto
    then show "snd (persist p flt q fs) p = Some (json_encode (data q))
        \<and> snd (persist p flt q fs) (p @ ''.tmp'') = None"
      using persist_success by simp
  qed
  have a: "\<forall>s \<in> set ?tr. s p = fs p \<or> s p = Some (json_encode (data q))"
  proof
    fix s assume m: "s \<in> set ?tr"
    have "?tr = butlast ?tr @ [last ?tr]" using ne by simp
    then have "s \<in> set (butlast ?tr) \<or> s = last ?tr"
      using m by (metis Un_iff set_append empty_iff empty_set set_ConsD)
    then show "s p = fs p \<or> s p = Some (json_encode (data q))"
    proof
      assume "s \<in> set (butlast ?tr)"
      then show ?thesis using b by simp
    next
      assume l: "s = last ?tr"
      show ?thesis
      proof (cases "fst (persist p flt q fs) = None")
        case True
        then show ?thesis using s l by (simp add: snd_persist)
      next
        case False
        then show ?thesis using f m by simp
      qed
    qed
  qed
  show ?thesis using a b f f' e s json_roundtrip by simp
qed

lemma persist_as_calls:
  "fst (persist p NoFault q fs) = None
   \<and> snd (persist p NoFault q fs) = do_calls (persist_calls p q) fs"
  by (simp add: persist_def persist_states_def persist_calls_def Let_def
      write_states_nonempty)

text \<open>
  C8. Two \<open>persist\<close> calls A and B for the same destination that overlap: A creates
  \<open>q.json.tmp\<close>, writes its snapshot and closes; B creates \<open>q.json.tmp\<close>, which empties
  it; A renames it onto \<open>q.json\<close>. None of A's calls failed, so A returns \<open>nil\<close>, and the
  destination, which held a snapshot before, now holds B's file with none of its bytes
  written: neither the old snapshot nor A's, and nothing that decodes.
\<close>

theorem persist_overlap_partial:
  "[OsCreate ''q.json.tmp'', OsWrite ''q.json.tmp'' (json_encode [Slice ''A'']),
    OsClose ''q.json.tmp'', OsCreate ''q.json.tmp'', OsRename ''q.json.tmp'' ''q.json'']
     \<in> shuffles (persist_calls ''q.json'' \<lparr>data = [Slice ''A''], bytes = 1\<rparr>)
          (take 1 (persist_calls ''q.json'' \<lparr>data = [Slice ''B''], bytes = 1\<rparr>))
   \<and> do_calls
        [OsCreate ''q.json.tmp'', OsWrite ''q.json.tmp'' (json_encode [Slice ''A'']),
         OsClose ''q.json.tmp'', OsCreate ''q.json.tmp'', OsRename ''q.json.tmp'' ''q.json'']
        [''q.json'' \<mapsto> json_encode [Slice ''old'']] ''q.json'' = Some []
   \<and> json_decode [] = None
   \<and> json_encode [Slice ''old''] \<noteq> []
   \<and> json_encode [Slice ''A''] \<noteq> []
   \<and> snd (persist ''q.json'' NoFault \<lparr>data = [Slice ''A''], bytes = 1\<rparr>
          [''q.json'' \<mapsto> json_encode [Slice ''old'']]) ''q.json''
       = Some (json_encode [Slice ''A''])"
proof -
  have sh: "[OsCreate ''q.json.tmp'', OsWrite ''q.json.tmp'' (json_encode [Slice ''A'']),
    OsClose ''q.json.tmp'', OsCreate ''q.json.tmp'', OsRename ''q.json.tmp'' ''q.json'']
     \<in> shuffles (persist_calls ''q.json'' \<lparr>data = [Slice ''A''], bytes = 1\<rparr>)
          (take 1 (persist_calls ''q.json'' \<lparr>data = [Slice ''B''], bytes = 1\<rparr>))"
    by (simp add: persist_calls_def Let_def Cons_in_shuffles_iff)
  have st: "do_calls
        [OsCreate ''q.json.tmp'', OsWrite ''q.json.tmp'' (json_encode [Slice ''A'']),
         OsClose ''q.json.tmp'', OsCreate ''q.json.tmp'', OsRename ''q.json.tmp'' ''q.json'']
        [''q.json'' \<mapsto> json_encode [Slice ''old'']] ''q.json'' = Some []"
    by (simp add: last_write_states os_create_def os_rename_def)
  have al: "snd (persist ''q.json'' NoFault \<lparr>data = [Slice ''A''], bytes = 1\<rparr>
          [''q.json'' \<mapsto> json_encode [Slice ''old'']]) ''q.json''
       = Some (json_encode [Slice ''A''])"
    using persist_success(2) [of NoFault "''q.json''" "\<lparr>data = [Slice ''A''], bytes = 1\<rparr>"]
    by simp
  have d: "json_decode [] = None" by (simp add: json_decode_def)
  show ?thesis using sh st al d by (simp add: json_encode_def)
qed

section \<open>Snapshot round trip and load\<close>

lemma load_after_persist:
  "load p NoFault q2 (snd (persist p NoFault q fs))
     = (None, q2\<lparr>data := data q, bytes := of_nat (held_bytes q)\<rparr>)"
proof -
  have "snd (persist p NoFault q fs) p = Some (json_encode (data q))"
    by (rule persist_success) simp_all
  then show ?thesis
    by (simp add: load_def load_with_def json_roundtrip foldl_total held_bytes_def)
qed

text \<open>
  C6. Persisting a queue \<open>q\<close> to a path and loading that path (into the same or another
  queue \<open>q2\<close>) succeeds and yields exactly the items of \<open>q\<close>, in order, and a \<open>size()\<close>
  equal to the sum of their lengths; that is \<open>q\<close>'s own \<open>size()\<close> for every queue whose
  byte total is exact, which every queue reached from the empty one is.
\<close>

theorem snapshot_roundtrip:
  "fst (persist p NoFault q fs) = None
   \<and> fst (load p NoFault q2 (snd (persist p NoFault q fs))) = None
   \<and> data (snd (load p NoFault q2 (snd (persist p NoFault q fs)))) = data q
   \<and> length_q (snd (load p NoFault q2 (snd (persist p NoFault q fs)))) = length_q q
   \<and> size_q (snd (load p NoFault q2 (snd (persist p NoFault q fs)))) = of_nat (held_bytes q)
   \<and> (accounted q \<longrightarrow>
        size_q (snd (load p NoFault q2 (snd (persist p NoFault q fs)))) = size_q q)
   \<and> accounted (fst (snd (run ops (g0, new_queue, fs0))))"
proof -
  have "fst (persist p NoFault q fs) = None" by (rule persist_success) simp_all
  moreover have "accounted (fst (snd (run ops (g0, new_queue, fs0))))"
    using accounted_run [of "(g0, new_queue, fs0)" ops] accounted_new by simp
  ultimately show ?thesis
    by (simp add: load_after_persist length_q_def size_q_def accounted_def)
qed

theorem snapshot_roundtrip_witness:
  "fst (snd (run [Enqueue (Slice ''one''), Enqueue (Slice ''two'')]
       (default_globals, new_queue, Map.empty)))
     = \<lparr>data = [Slice ''one'', Slice ''two''], bytes = 6\<rparr>
   \<and> accounted \<lparr>data = [Slice ''one'', Slice ''two''], bytes = 6\<rparr>
   \<and> fst (load ''zapq.json'' NoFault new_queue
        (snd (persist ''zapq.json'' NoFault \<lparr>data = [Slice ''one'', Slice ''two''], bytes = 6\<rparr>
           Map.empty))) = None
   \<and> data (snd (load ''zapq.json'' NoFault new_queue
        (snd (persist ''zapq.json'' NoFault \<lparr>data = [Slice ''one'', Slice ''two''], bytes = 6\<rparr>
           Map.empty)))) = [Slice ''one'', Slice ''two'']
   \<and> size_q (snd (load ''zapq.json'' NoFault new_queue
        (snd (persist ''zapq.json'' NoFault \<lparr>data = [Slice ''one'', Slice ''two''], bytes = 6\<rparr>
           Map.empty)))) = 6"
proof -
  have r: "fst (snd (run [Enqueue (Slice ''one''), Enqueue (Slice ''two'')]
       (default_globals, new_queue, Map.empty)))
     = \<lparr>data = [Slice ''one'', Slice ''two''], bytes = 6\<rparr>"
    by (simp add: enqueue_def default_globals_def new_queue_def maxBody_def
        append_copy_def slice_len_def Let_def)
  have a: "accounted \<lparr>data = [Slice ''one'', Slice ''two''], bytes = 6\<rparr>"
    by (simp add: accounted_def held_bytes_def slice_len_def)
  show ?thesis
    using r a snapshot_roundtrip [of "''zapq.json''"
        "\<lparr>data = [Slice ''one'', Slice ''two''], bytes = 6\<rparr>" Map.empty new_queue
        "[]" default_globals Map.empty]
    by (simp add: size_q_def held_bytes_def slice_len_def)
qed

text \<open>Whenever \<open>load\<close> returns an error, with any decoder, the queue is as it was.\<close>

lemma load_error_untouched:
  "fst (load_with dec p flt q fs) \<noteq> None \<Longrightarrow> snd (load_with dec p flt q fs) = q"
  using load_with_cases [of dec p flt q fs "fst (load_with dec p flt q fs)"
      "snd (load_with dec p flt q fs)"]
  by auto

text \<open>
  C7. \<open>load\<close> rejects a source only when decoding its first JSON value fails, and nothing
  looks at the rest of the file. A file holding \<open>nullx\<close>, which no \<open>persist\<close> writes, is
  accepted: \<open>load\<close> returns \<open>nil\<close> and a queue that held one item is empty afterwards. A
  snapshot of the item A followed by other bytes is accepted too, and replaces the
  queue by A.
\<close>

theorem load_accepts_malformed:
  "(\<forall>xs. json_encode xs \<noteq> ''nullx'')
   \<and> load ''s.json'' NoFault \<lparr>data = [Slice ''x''], bytes = 1\<rparr> [''s.json'' \<mapsto> ''nullx'']
       = (None, \<lparr>data = [], bytes = 0\<rparr>)
   \<and> (\<forall>xs. json_encode xs \<noteq> CHR ''['' # dquote # ''QQ=='' @ dquote # '']]{x'')
   \<and> load ''s.json'' NoFault \<lparr>data = [Slice ''x''], bytes = 1\<rparr>
        [''s.json'' \<mapsto> CHR ''['' # dquote # ''QQ=='' @ dquote # '']]{x'']
       = (None, \<lparr>data = [Slice ''A''], bytes = 1\<rparr>)"
proof -
  have n: "json_decode ''nullx'' = Some []"
    by (simp add: json_decode_def is_space_def)
  have e: "encode_elem (Slice ''A'') = dquote # ''QQ=='' @ [dquote]"
    by (simp add: encode_elem_def b64_char_def b64_alphabet_def Let_def)
  have g: "json_decode (CHR ''['' # dquote # ''QQ=='' @ dquote # '']]{x'') = Some [Slice ''A'']"
    using json_decode_first_value [of "[Slice ''A'']" "'']{x''"] by (simp add: e)
  have l: "\<And>xs. last (json_encode xs) = newline" by (simp add: json_encode_def)
  have u1: "\<forall>xs. json_encode xs \<noteq> ''nullx''" by (simp add: json_encode_def)
  have u2: "\<forall>xs. json_encode xs \<noteq> CHR ''['' # dquote # ''QQ=='' @ dquote # '']]{x''"
  proof
    fix xs
    show "json_encode xs \<noteq> CHR ''['' # dquote # ''QQ=='' @ dquote # '']]{x''"
    proof
      assume "json_encode xs = CHR ''['' # dquote # ''QQ=='' @ dquote # '']]{x''"
      then have "last (json_encode xs) = CHR ''x''" by simp
      then show False using l [of xs] by (simp add: newline_def)
    qed
  qed
  show ?thesis using n g u1 u2 by (simp add: load_def load_with_def slice_len_def)
qed

section \<open>The caps\<close>

text \<open>What a snapshot of the three items A, B, C looks like on disk.\<close>

lemma snapshot_ABC_text:
  "json_encode [Slice ''A'', Slice ''B'', Slice ''C'']
     = CHR ''['' # dquote # ''QQ=='' @ dquote # '','' @ dquote # ''Qg=='' @ dquote # '',''
       @ dquote # ''Qw=='' @ [dquote, CHR '']'', newline]"
  by (simp add: json_encode_def encode_elem_def b64_char_def b64_alphabet_def Let_def)

lemma caps_inv_enqueue:
  assumes "sane_caps g" "caps_inv g q"
  shows "caps_inv (fst (snd (enqueue b g q))) (snd (snd (enqueue b g q)))"
proof (cases "fst (enqueue b g q) = None")
  case False
  then have "snd (enqueue b g q) = (g, q)" by (auto simp add: enqueue_def Let_def split: if_splits)
  then show ?thesis using assms by simp
next
  case True
  then have c: "slice_len b \<le> maxBody" "int (length (data q)) < maxMsgs g"
    "sint (bytes q + of_nat (slice_len b)) \<le> sint (maxBytes g)"
    by (auto simp add: enqueue_def Let_def split: if_splits)
  have s: "sint (bytes q) = int (held_bytes q)" "sint (bytes q) \<le> sint (maxBytes g)"
    using assms(2) by (simp_all add: caps_inv_def within_caps_def size_q_def)
  have "sint (bytes q) + int (slice_len b) < 2 ^ 63"
    using s c(1) assms(1) by (simp add: sane_caps_def)
  then have a: "sint (bytes q + of_nat (slice_len b)) = sint (bytes q) + int (slice_len b)"
    using s(1) by (simp add: sint_add_nat_bounded)
  have e: "enqueue b g q = (None, g\<lparr>enqueueCnt := enqueueCnt g + 1\<rparr>,
      q\<lparr>data := data q @ [append_copy b], bytes := bytes q + of_nat (slice_len b)\<rparr>)"
    using c by (simp add: enqueue_def Let_def slice_len_append_copy)
  show ?thesis
    using e c a s
    by (simp add: caps_inv_def within_caps_def length_q_def size_q_def held_bytes_def
        slice_len_append_copy)
qed

lemma caps_inv_dequeue:
  assumes "caps_inv g q"
  shows "caps_inv (fst (snd (dequeue g q))) (snd (snd (dequeue g q)))"
proof (cases "data q")
  case Nil
  then show ?thesis using assms
    by (simp add: dequeue_def caps_inv_def within_caps_def length_q_def size_q_def held_bytes_def)
next
  case (Cons m rest)
  have s: "sint (bytes q) = int (slice_len m + sum_list (map slice_len rest))"
    "sint (bytes q) \<le> sint (maxBytes g)" "int (length (data q)) \<le> maxMsgs g"
    using assms Cons by (simp_all add: caps_inv_def within_caps_def size_q_def held_bytes_def length_q_def)
  have d: "sint (bytes q - of_nat (slice_len m)) = int (sum_list (map slice_len rest))"
    using s(1) by (rule sint_sub_nat)
  show ?thesis
    using Cons d s
    by (simp add: dequeue_def caps_inv_def within_caps_def length_q_def size_q_def held_bytes_def)
qed

lemma caps_inv_clear:
  assumes "sane_caps g"
  shows "caps_inv (fst (clear g q)) (snd (clear g q))"
  using assms
  by (simp add: clear_def caps_inv_def within_caps_def sane_caps_def length_q_def size_q_def
      held_bytes_def)

lemma sane_caps_step: "fst (step x w) = g' \<Longrightarrow> sane_caps (fst w) \<Longrightarrow> sane_caps g'"
  by (cases w; cases x)
     (auto simp add: sane_caps_def enqueue_def dequeue_def clear_def Let_def
        split: prod.splits if_splits list.splits)

lemma caps_inv_step:
  assumes "\<not> is_load x" "sane_caps (fst w)" "caps_inv (fst w) (fst (snd w))"
  shows "caps_inv (fst (step x w)) (fst (snd (step x w)))"
proof (cases w)
  case (fields g q fs)
  show ?thesis
  proof (cases x)
    case (Enqueue b)
    then show ?thesis using assms fields caps_inv_enqueue [of g q b]
      by (auto split: prod.splits)
  next
    case Dequeue
    then show ?thesis using assms fields caps_inv_dequeue [of g q]
      by (auto split: prod.splits)
  next
    case Clear
    then show ?thesis using assms fields caps_inv_clear [of g q]
      by (auto split: prod.splits)
  next
    case (Persist p flt)
    then show ?thesis using assms fields by simp
  next
    case (Load p flt)
    then show ?thesis using assms by simp
  qed
qed

lemma caps_inv_new: "sane_caps g \<Longrightarrow> caps_inv g new_queue"
  by (simp add: caps_inv_def within_caps_def sane_caps_def new_queue_def length_q_def size_q_def
      held_bytes_def)

text \<open>Without \<open>load\<close>, and with caps that are not negative, the queue stays within its caps.\<close>

lemma caps_kept_without_load:
  assumes "\<forall>x \<in> set ops. \<not> is_load x" "sane_caps (fst w)" "caps_inv (fst w) (fst (snd w))"
  shows "caps_inv (fst (run ops w)) (fst (snd (run ops w))) \<and> sane_caps (fst (run ops w))"
  using assms
proof (induction ops arbitrary: w)
  case Nil
  then show ?case by simp
next
  case (Cons x xs)
  have s: "sane_caps (fst (step x w))" using Cons.prems(2) sane_caps_step by blast
  have c: "caps_inv (fst (step x w)) (fst (snd (step x w)))"
    using Cons.prems by (simp add: caps_inv_step)
  show ?case using Cons.IH [OF _ s c] Cons.prems(1) by simp
qed

text \<open>
  C1. \<open>enqueue\<close> checks both caps, and without \<open>load\<close> a queue that started empty stays
  within them (\<open>caps_kept_without_load\<close>). \<open>load\<close> checks neither: with \<open>maxMsgs = 2\<close>
  an empty queue that loads a snapshot of three one-byte items holds three items
  afterwards, and with \<open>maxBytes = 2\<close> it holds three bytes.
\<close>

theorem load_exceeds_caps:
  "load ''snap.json'' NoFault new_queue
       [''snap.json'' \<mapsto> json_encode [Slice ''A'', Slice ''B'', Slice ''C'']]
     = (None, \<lparr>data = [Slice ''A'', Slice ''B'', Slice ''C''], bytes = 3\<rparr>)
   \<and> length_q \<lparr>data = [Slice ''A'', Slice ''B'', Slice ''C''], bytes = 3\<rparr> = 3
   \<and> sint (size_q \<lparr>data = [Slice ''A'', Slice ''B'', Slice ''C''], bytes = 3\<rparr>) = 3
   \<and> within_caps (default_globals\<lparr>maxMsgs := 2\<rparr>) new_queue
   \<and> \<not> within_caps (default_globals\<lparr>maxMsgs := 2\<rparr>)
         \<lparr>data = [Slice ''A'', Slice ''B'', Slice ''C''], bytes = 3\<rparr>
   \<and> within_caps (default_globals\<lparr>maxBytes := 2\<rparr>) new_queue
   \<and> \<not> within_caps (default_globals\<lparr>maxBytes := 2\<rparr>)
         \<lparr>data = [Slice ''A'', Slice ''B'', Slice ''C''], bytes = 3\<rparr>"
  by (simp add: load_def load_with_def json_roundtrip new_queue_def slice_len_def
      within_caps_def length_q_def size_q_def default_globals_def)

end
